theory Spec2Isabelle
  imports Main "HOL-Library.Word"
begin

section \<open>The line decoder \<open>encoded_buffer\<close> of \<open>process.h\<close>\<close>

subsection \<open>Data\<close>

text \<open>
  The encodings named by the \<open>switch\<close> of \<open>next_utf8_lines\<close>. The buffer keeps the
  encoding \<open>e_\<close>, every byte received so far \<open>bytes_\<close> (a \<open>std::string\<close>) and the byte
  offset \<open>last_\<close> up to which lines have been handed out. The fields are \<open>buf_e\<close>,
  \<open>buf_bytes\<close> and \<open>buf_last\<close> here, since no name of a constant ends in an underscore.
\<close>

datatype encodings = dont_know | acp | oem | utf16 | utf8

record encoded_buffer =
  buf_e :: encodings
  buf_bytes :: string
  buf_last :: nat

text \<open>
  The template parameter \<open>CharT\<close> of \<open>next_line\<close> is instantiated with \<open>char\<close> (one
  byte) and with \<open>wchar_t\<close> (two bytes on the platform of this code, which uses
  \<open>HANDLE\<close>, \<open>OVERLAPPED\<close> and \<open>DWORD\<close>). A \<open>wchar_t\<close> read through the
  reinterpreted pointer is the little-endian value of two adjacent bytes.
\<close>

datatype CharT = char_t | wchar_t

fun sizeof :: "CharT \<Rightarrow> nat" where
  "sizeof char_t = 1"
| "sizeof wchar_t = 2"

type_synonym wchar = "16 word"

definition wchar_of :: "char \<Rightarrow> char \<Rightarrow> wchar" where
  "wchar_of lo hi = of_char lo + 256 * of_char hi"

text \<open>
  The only memory the model knows is the buffer itself: a read that touches a byte at an
  index that is not below \<open>length bytes\<close> is a read behind the accumulated bytes, the
  error \<open>out_of_bounds\<close> here. (A \<open>std::string\<close> keeps one terminating byte behind
  its last one; every byte after that one is outside the object.)
\<close>

datatype error = out_of_bounds

definition read_char :: "string \<Rightarrow> nat \<Rightarrow> char option" where
  "read_char bytes p = (if p < length bytes then Some (bytes ! p) else None)"

definition read_wchar :: "string \<Rightarrow> nat \<Rightarrow> wchar option" where
  "read_wchar bytes p =
     (if p + 1 < length bytes then Some (wchar_of (bytes ! p) (bytes ! (p + 1))) else None)"

text \<open>
  The test \<open>*p == CharT('\n') || *p == CharT('\r')\<close> at byte index \<open>p\<close>; \<open>None\<close> when
  the read of \<open>*p\<close> leaves the buffer.
\<close>

fun is_sep :: "CharT \<Rightarrow> string \<Rightarrow> nat \<Rightarrow> bool option" where
  "is_sep char_t bytes p =
     map_option (\<lambda>c. c = CHR 0x0A \<or> c = CHR 0x0D) (read_char bytes p)"
| "is_sep wchar_t bytes p =
     map_option (\<lambda>w. w = 0x0A \<or> w = 0x0D) (read_wchar bytes p)"

text \<open>
  A \<open>std::basic_string_view<CharT>\<close> into the buffer: the byte index its data pointer
  stands at, and its length counted in \<open>CharT\<close> units. \<open>line.empty()\<close> looks at the
  length only.
\<close>

type_synonym view = "nat \<times> nat"

definition view_empty :: "view \<Rightarrow> bool" where
  "view_empty v = (snd v = 0)"

lemma is_sep_in_buffer: "is_sep c bytes p = Some b \<Longrightarrow> p + sizeof c \<le> length bytes"
  by (cases c) (auto simp: read_char_def read_wchar_def split: if_splits)

subsection \<open>The scan of \<open>next_line\<close>\<close>

text \<open>
  The inner loop \<open>while (p != end && (*p == '\n' || *p == '\r')) ++p;\<close>. Pointers are
  byte indices into the buffer, so \<open>++p\<close> adds \<open>sizeof c\<close>.
\<close>

function skip :: "CharT \<Rightarrow> string \<Rightarrow> nat \<Rightarrow> nat \<Rightarrow> error + nat" where
  "skip c bytes e p =
     (if p = e then Inr p
      else (case is_sep c bytes p of
              None \<Rightarrow> Inl out_of_bounds
            | Some True \<Rightarrow> skip c bytes e (p + sizeof c)
            | Some False \<Rightarrow> Inr p))"
  by pat_completeness auto
termination
proof (relation "measure (\<lambda>(c, bytes, e, p). length bytes - p)")
  show "wf (measure (\<lambda>(c, bytes, e, p). length bytes - p))" by simp
next
  fix c :: CharT and bytes :: string and e p :: nat and b :: bool
  assume "is_sep c bytes p = Some b"
  then have "p + sizeof c \<le> length bytes" by (rule is_sep_in_buffer)
  moreover have "0 < sizeof c" by (cases c) simp_all
  ultimately show "((c, bytes, e, p + sizeof c), (c, bytes, e, p))
      \<in> measure (\<lambda>(c, bytes, e, p). length bytes - p)"
    by simp
qed

declare skip.simps [simp del]

lemma skip_mono: "skip c bytes e q = Inr p' \<Longrightarrow> q \<le> p'"
proof (induction c bytes e q rule: skip.induct)
  case (1 c bytes e q)
  show ?case
  proof (cases "q = e")
    case True
    with "1.prems" show ?thesis by (simp add: skip.simps)
  next
    case ne: False
    show ?thesis
    proof (cases "is_sep c bytes q")
      case None
      with ne "1.prems" show ?thesis by (simp add: skip.simps)
    next
      case (Some b)
      show ?thesis
      proof (cases b)
        case True
        with ne Some "1.prems" have "skip c bytes e (q + sizeof c) = Inr p'"
          by (simp add: skip.simps)
        with "1.IH" ne Some True have "q + sizeof c \<le> p'" by simp
        then show ?thesis by simp
      next
        case False
        with ne Some "1.prems" show ?thesis by (simp add: skip.simps)
      qed
    qed
  qed
qed

lemma sizeof_pos: "0 < sizeof c"
  by (cases c) simp_all

lemma skip_advances:
  assumes "skip c bytes e p = Inr p'" and "p \<noteq> e" and "is_sep c bytes p = Some True"
  shows "p + sizeof c \<le> p'"
proof -
  from assms(1) have "skip c bytes e (p + sizeof c) = Inr p'"
    by (subst (asm) skip.simps) (simp add: assms(2,3))
  then show ?thesis by (rule skip_mono)
qed

text \<open>
  The outer loop \<open>while (p != end)\<close> with its variables \<open>start\<close>, \<open>p\<close> and \<open>line\<close>.
  \<open>p - start\<close> is a difference of \<open>CharT\<close> pointers, so it counts units. The
  \<open>break\<close> leaves the loop with the line found; an empty line moves \<open>start\<close> behind
  the separators and goes on.
\<close>

function scan :: "CharT \<Rightarrow> string \<Rightarrow> nat \<Rightarrow> nat \<Rightarrow> nat \<Rightarrow> view \<Rightarrow> error + (view \<times> nat)" where
  "scan c bytes e start p line =
     (if p = e then Inr (line, p)
      else (case is_sep c bytes p of
              None \<Rightarrow> Inl out_of_bounds
            | Some True \<Rightarrow>
                (case skip c bytes e p of
                   Inl err \<Rightarrow> Inl err
                 | Inr p' \<Rightarrow>
                     if \<not> view_empty (start, (p - start) div sizeof c)
                     then Inr ((start, (p - start) div sizeof c), p')
                     else scan c bytes e p' p' (start, (p - start) div sizeof c))
            | Some False \<Rightarrow> scan c bytes e start (p + sizeof c) line))"
  by pat_completeness auto
termination
proof (relation "measure (\<lambda>(c, bytes, e, start, p, line). length bytes - p)", goal_cases)
  case 1
  show ?case by simp
next
  case (2 c bytes e start p line x2 b)
  from 2 have "p + sizeof c \<le> b"
    by (auto intro: skip_advances)
  moreover from 2 have "p + sizeof c \<le> length bytes"
    by (auto dest: is_sep_in_buffer)
  ultimately show ?case
    using sizeof_pos [of c] by simp
next
  case (3 c bytes e start p line x2)
  then have "p + sizeof c \<le> length bytes"
    by (auto dest: is_sep_in_buffer)
  then show ?case
    using sizeof_pos [of c] by simp
qed

declare scan.simps [simp del]

text \<open>
  \<open>next_line\<close>: the scan runs from \<open>byte_offset\<close> to \<open>size\<close>, the buffer's length
  rounded down to whole units. With no line found and \<open>finished\<close> set, the rest of the
  buffer is returned; its length is \<open>size - byte_offset\<close>, a number of bytes that the
  view takes as a number of units. The subtraction is one of \<open>std::size_t\<close>; it is
  reached with \<open>byte_offset \<le> size\<close> only (\<open>next_line_offset_in_range\<close> below), where
  it is the subtraction of \<open>nat\<close>. The result is the line and the new \<open>byte_offset\<close>.
\<close>

definition next_line :: "CharT \<Rightarrow> bool \<Rightarrow> string \<Rightarrow> nat \<Rightarrow> error + (view \<times> nat)" where
  "next_line c finished bytes byte_offset =
     (let size = (if sizeof c = 2 \<and> odd (length bytes) then length bytes - 1 else length bytes)
      in case scan c bytes size byte_offset byte_offset (0, 0) of
           Inl err \<Rightarrow> Inl err
         | Inr (line, p) \<Rightarrow>
             if view_empty line then
               (if finished then Inr ((byte_offset, size - byte_offset), length bytes)
                else Inr (line, byte_offset))
             else Inr (line, p))"

subsection \<open>Facts about the scan\<close>

lemma skip_result:
  "skip c bytes e p = Inr p' \<Longrightarrow> p' = e \<or> p' + sizeof c \<le> length bytes"
proof (induction c bytes e p rule: skip.induct)
  case (1 c bytes e p)
  show ?case
  proof (cases "p = e")
    case True
    with "1.prems" show ?thesis by (subst (asm) skip.simps) simp
  next
    case ne: False
    show ?thesis
    proof (cases "is_sep c bytes p")
      case None
      with ne "1.prems" show ?thesis by (subst (asm) skip.simps) simp
    next
      case (Some b)
      show ?thesis
      proof (cases b)
        case True
        with ne Some "1.prems" have "skip c bytes e (p + sizeof c) = Inr p'"
          by (subst (asm) skip.simps) simp
        with "1.IH" ne Some True show ?thesis by simp
      next
        case False
        with ne Some "1.prems" have "p' = p"
          by (subst (asm) skip.simps) simp
        with Some show ?thesis by (auto dest: is_sep_in_buffer)
      qed
    qed
  qed
qed

lemma scan_props:
  "scan c bytes e start p line = Inr (line', p') \<Longrightarrow> start \<le> p \<Longrightarrow> view_empty line \<Longrightarrow>
     p \<le> p' \<and> (p' = e \<or> p' + sizeof c \<le> length bytes) \<and> (view_empty line' \<longrightarrow> p' = e) \<and>
     (\<not> view_empty line' \<longrightarrow>
        start \<le> fst line' \<and> fst line' + sizeof c * snd line' + sizeof c \<le> p')"
proof (induction c bytes e start p line rule: scan.induct)
  case (1 c bytes e start p line)
  show ?case
  proof (cases "p = e")
    case True
    with "1.prems" show ?thesis by (subst (asm) scan.simps) auto
  next
    case ne: False
    show ?thesis
    proof (cases "is_sep c bytes p")
      case None
      with ne "1.prems" show ?thesis by (subst (asm) scan.simps) simp
    next
      case (Some b)
      show ?thesis
      proof (cases b)
        case False
        with ne Some "1.prems"(1)
        have "scan c bytes e start (p + sizeof c) line = Inr (line', p')"
          by (subst (asm) scan.simps) simp
        with "1.IH"(2) [of False] ne Some False "1.prems"(2,3) show ?thesis by simp
      next
        case True
        show ?thesis
        proof (cases "skip c bytes e p")
          case (Inl err)
          with ne Some True "1.prems"(1) show ?thesis by (subst (asm) scan.simps) simp
        next
          case (Inr q)
          with ne Some True have adv: "p + sizeof c \<le> q"
            by (auto intro: skip_advances)
          from Inr have res: "q = e \<or> q + sizeof c \<le> length bytes"
            by (rule skip_result)
          let ?l = "(start, (p - start) div sizeof c)"
          show ?thesis
          proof (cases "view_empty ?l")
            case False
            with ne Some True Inr "1.prems"(1) have eq: "line' = ?l" "p' = q"
              by (subst (asm) scan.simps, simp)+
            have "sizeof c * ((p - start) div sizeof c) \<le> p - start" by simp
            with "1.prems"(2) have "start + sizeof c * ((p - start) div sizeof c) \<le> p" by arith
            with eq adv res False show ?thesis by simp
          next
            case emp: True
            with ne Some True Inr "1.prems"(1)
            have "scan c bytes e q q ?l = Inr (line', p')"
              by (subst (asm) scan.simps) simp
            with "1.IH"(1) [of True q] ne Some True Inr emp
            have "q \<le> p' \<and> (p' = e \<or> p' + sizeof c \<le> length bytes) \<and>
                (view_empty line' \<longrightarrow> p' = e) \<and>
                (\<not> view_empty line' \<longrightarrow>
                   q \<le> fst line' \<and> fst line' + sizeof c * snd line' + sizeof c \<le> p')"
              by simp
            with adv "1.prems"(2) show ?thesis by auto
          qed
        qed
      qed
    qed
  qed
qed

lemma next_line_props:
  assumes "next_line c finished bytes byte_offset = Inr (line, off)"
  shows "byte_offset \<le> off" and "off \<le> length bytes"
    and "\<not> view_empty line \<Longrightarrow> byte_offset < off"
    and "\<not> view_empty line \<Longrightarrow> byte_offset \<le> fst line"
    and "view_empty line \<Longrightarrow> \<not> finished \<Longrightarrow> off = byte_offset"
    and "view_empty line \<Longrightarrow> finished \<Longrightarrow> off = length bytes"
proof -
  define size where
    "size = (if sizeof c = 2 \<and> odd (length bytes) then length bytes - 1 else length bytes)"
  have size_le: "size \<le> length bytes" by (simp add: size_def)
  from assms obtain l p where sc: "scan c bytes size byte_offset byte_offset (0, 0) = Inr (l, p)"
    by (auto simp: next_line_def size_def Let_def split: sum.splits)
  from scan_props [OF sc] have
    sp: "byte_offset \<le> p" "p = size \<or> p + sizeof c \<le> length bytes"
      "view_empty l \<Longrightarrow> p = size"
      "\<not> view_empty l \<Longrightarrow> byte_offset \<le> fst l \<and> fst l + sizeof c * snd l + sizeof c \<le> p"
    by (simp_all add: view_empty_def)
  from sp(1,2) size_le have p_le: "byte_offset \<le> length bytes" "p \<le> length bytes" by auto
  from assms sc have res:
    "(line, off) = (if view_empty l then
         (if finished then ((byte_offset, size - byte_offset), length bytes) else (l, byte_offset))
       else (l, p))"
    by (simp add: next_line_def size_def [symmetric] Let_def split: if_splits)
  show "byte_offset \<le> off" using res sp(1) p_le by (auto split: if_splits)
  show "off \<le> length bytes" using res p_le by (auto split: if_splits)
  show "byte_offset < off" if "\<not> view_empty line"
  proof (cases "view_empty l")
    case True
    with res that have "finished" "line = (byte_offset, size - byte_offset)" "off = length bytes"
      by (auto split: if_splits)
    with that size_le show ?thesis by (simp add: view_empty_def)
  next
    case False
    with res have "off = p" by simp
    with sp(4) [OF False] sizeof_pos [of c] show ?thesis by simp
  qed
  show "byte_offset \<le> fst line" if "\<not> view_empty line"
    using res that sp(4) by (auto split: if_splits)
  show "off = byte_offset" if "view_empty line" "\<not> finished"
    using res that by (auto split: if_splits)
  show "off = length bytes" if "view_empty line" "finished"
    using res that by (auto split: if_splits)
qed

lemma next_line_offset_in_range:
  assumes "next_line c finished bytes byte_offset = Inr r"
  shows "byte_offset \<le> (if sizeof c = 2 \<and> odd (length bytes) then length bytes - 1
                         else length bytes)"
proof -
  define size where
    "size = (if sizeof c = 2 \<and> odd (length bytes) then length bytes - 1 else length bytes)"
  from assms obtain l p where sc: "scan c bytes size byte_offset byte_offset (0, 0) = Inr (l, p)"
    by (auto simp: next_line_def size_def Let_def split: sum.splits)
  from scan_props [OF sc] have "byte_offset \<le> p" "p = size \<or> p + sizeof c \<le> length bytes"
    by (simp_all add: view_empty_def)
  then have "byte_offset \<le> size"
    by (cases c) (auto simp: size_def)
  then show ?thesis by (simp add: size_def)
qed

subsection \<open>\<open>next_utf8_lines\<close>\<close>

text \<open>
  What a view holds: the \<open>char\<close>s, or the \<open>wchar_t\<close>s, from its data pointer on. A
  view that reaches beyond the buffer cannot be read.
\<close>

fun wchars :: "string \<Rightarrow> wchar list" where
  "wchars (lo # hi # bytes) = wchar_of lo hi # wchars bytes"
| "wchars bytes = []"

definition view_chars :: "string \<Rightarrow> view \<Rightarrow> error + string" where
  "view_chars bytes v =
     (if fst v + snd v \<le> length bytes then Inr (take (snd v) (drop (fst v) bytes))
      else Inl out_of_bounds)"

definition view_wchars :: "string \<Rightarrow> view \<Rightarrow> error + wchar list" where
  "view_wchars bytes v =
     (if fst v + 2 * snd v \<le> length bytes
      then Inr (wchars (take (2 * snd v) (drop (fst v) bytes)))
      else Inl out_of_bounds)"

text \<open>
  \<open>utf16_to_utf8\<close> and \<open>bytes_to_utf8\<close> are declared in \<open>utility.h\<close>, which is not
  among the sources; they are parameters of the model.
\<close>

record converters =
  utf16_to_utf8 :: "wchar list \<Rightarrow> string"
  bytes_to_utf8 :: "encodings \<Rightarrow> string \<Rightarrow> string"

text \<open>
  The three bodies of the \<open>switch (buf_e)\<close> differ in the instance of \<open>next_line\<close> they
  call and in the conversion of the line handed to \<open>f\<close>; \<open>line_CharT\<close> and \<open>to_utf8\<close>
  give both, case by case.
\<close>

fun line_CharT :: "encodings \<Rightarrow> CharT" where
  "line_CharT utf16 = wchar_t"
| "line_CharT acp = char_t"
| "line_CharT oem = char_t"
| "line_CharT utf8 = char_t"
| "line_CharT dont_know = char_t"

fun to_utf8 :: "converters \<Rightarrow> encodings \<Rightarrow> string \<Rightarrow> view \<Rightarrow> error + string" where
  "to_utf8 cv utf16 bytes v =
     (case view_wchars bytes v of Inl err \<Rightarrow> Inl err | Inr ws \<Rightarrow> Inr (utf16_to_utf8 cv ws))"
| "to_utf8 cv acp bytes v =
     (case view_chars bytes v of Inl err \<Rightarrow> Inl err | Inr cp \<Rightarrow> Inr (bytes_to_utf8 cv acp cp))"
| "to_utf8 cv oem bytes v =
     (case view_chars bytes v of Inl err \<Rightarrow> Inl err | Inr cp \<Rightarrow> Inr (bytes_to_utf8 cv oem cp))"
| "to_utf8 cv utf8 bytes v = view_chars bytes v"
| "to_utf8 cv dont_know bytes v = view_chars bytes v"

text \<open>
  The loop \<open>for (;;)\<close>: take the next line; return when it is empty, else pass its
  conversion to \<open>f\<close> and go on. The calls of \<open>f\<close> are the list of its arguments, in
  order; the buffer comes back with the new \<open>last_\<close>. A call that reads outside the
  buffer at any point is the error, whatever \<open>f\<close> has been given before.
\<close>

function next_utf8_lines ::
  "converters \<Rightarrow> bool \<Rightarrow> encoded_buffer \<Rightarrow> error + (string list \<times> encoded_buffer)" where
  "next_utf8_lines cv finished b =
     (case next_line (line_CharT (buf_e b)) finished (buf_bytes b) (buf_last b) of
        Inl err \<Rightarrow> Inl err
      | Inr (line, off) \<Rightarrow>
          if view_empty line then Inr ([], b\<lparr>buf_last := off\<rparr>)
          else (case to_utf8 cv (buf_e b) (buf_bytes b) line of
                  Inl err \<Rightarrow> Inl err
                | Inr s \<Rightarrow>
                    (case next_utf8_lines cv finished (b\<lparr>buf_last := off\<rparr>) of
                       Inl err \<Rightarrow> Inl err
                     | Inr (ls, b') \<Rightarrow> Inr (s # ls, b'))))"
  by pat_completeness auto
termination
proof (relation "measure (\<lambda>(cv, finished, b). length (buf_bytes b) - buf_last b)", goal_cases)
  case 1
  show ?case by simp
next
  case (2 cv finished b x line off s)
  then have "next_line (line_CharT (buf_e b)) finished (buf_bytes b) (buf_last b) = Inr (line, off)"
    and "\<not> view_empty line" by simp_all
  then have "buf_last b < off" "off \<le> length (buf_bytes b)"
    by (auto dest: next_line_props)
  then show ?case by simp
qed

declare next_utf8_lines.simps [simp del]

text \<open>
  Modelled from the spec: the constructor and \<open>add\<close> of \<open>encoded_buffer\<close> are declared
  in \<open>process.h\<close> and defined in a file that is not among the sources. The spec has
  \<open>add(bytes)\<close> append raw bytes with no decoding, and the offset mark bytes already
  handed out, so a new buffer starts at offset 0.
\<close>

definition new_encoded_buffer :: "encodings \<Rightarrow> string \<Rightarrow> encoded_buffer" where
  "new_encoded_buffer e bytes = \<lparr>buf_e = e, buf_bytes = bytes, buf_last = 0\<rparr>"

definition add :: "string \<Rightarrow> encoded_buffer \<Rightarrow> encoded_buffer" where
  "add bytes b = b\<lparr>buf_bytes := buf_bytes b @ bytes\<rparr>"

text \<open>
  A caller's sequence of calls on one buffer, with every line passed to \<open>f\<close> collected in
  order.
\<close>

datatype call = Add string | Next_utf8_lines bool

fun calls :: "converters \<Rightarrow> call list \<Rightarrow> encoded_buffer \<Rightarrow> error + (string list \<times> encoded_buffer)" where
  "calls cv [] b = Inr ([], b)"
| "calls cv (Add bytes # cs) b = calls cv cs (add bytes b)"
| "calls cv (Next_utf8_lines finished # cs) b =
     (case next_utf8_lines cv finished b of
        Inl err \<Rightarrow> Inl err
      | Inr (ls, b') \<Rightarrow>
          (case calls cv cs b' of
             Inl err \<Rightarrow> Inl err
           | Inr (ls', b'') \<Rightarrow> Inr (ls @ ls', b'')))"

text \<open>
  Converters to run the model with: on ASCII text, a code unit becomes the byte of the same
  value and a byte stays as it is.
\<close>

definition plain :: converters where
  "plain = \<lparr>utf16_to_utf8 = map (\<lambda>w. char_of (unat w)), bytes_to_utf8 = (\<lambda>e s. s)\<rparr>"

text \<open>The lines of a run, without the buffer.\<close>

definition emitted :: "error + (string list \<times> encoded_buffer) \<Rightarrow> error + string list" where
  "emitted r = (case r of Inl err \<Rightarrow> Inl err | Inr (ls, b) \<Rightarrow> Inr ls)"

text \<open>
  Feeding a byte sequence in chunks, with \<open>next_utf8_lines(false, f)\<close> after every chunk
  and \<open>next_utf8_lines(true, f)\<close> at the end, and feeding it in one call.
\<close>

definition chunked :: "converters \<Rightarrow> encodings \<Rightarrow> string list \<Rightarrow> error + string list" where
  "chunked cv e chunks =
     emitted (calls cv (concat (map (\<lambda>c. [Add c, Next_utf8_lines False]) chunks)
                       @ [Next_utf8_lines True]) (new_encoded_buffer e []))"

definition whole :: "converters \<Rightarrow> encodings \<Rightarrow> string \<Rightarrow> error + string list" where
  "whole cv e bytes =
     emitted (calls cv [Add bytes, Next_utf8_lines True] (new_encoded_buffer e []))"

subsection \<open>Facts about \<open>next_utf8_lines\<close> and sequences of calls\<close>

lemma next_utf8_lines_props:
  "next_utf8_lines cv finished b = Inr (ls, b') \<Longrightarrow>
     buf_last b \<le> buf_last b' \<and> buf_last b' \<le> length (buf_bytes b) \<and>
     buf_bytes b' = buf_bytes b \<and> buf_e b' = buf_e b"
proof (induction cv finished b arbitrary: ls rule: next_utf8_lines.induct)
  case (1 cv finished b)
  from "1.prems" obtain line off where
    nl: "next_line (line_CharT (buf_e b)) finished (buf_bytes b) (buf_last b) = Inr (line, off)"
    by (subst (asm) next_utf8_lines.simps) (auto split: sum.splits)
  note np = next_line_props [OF nl]
  show ?case
  proof (cases "view_empty line")
    case True
    with nl "1.prems" have "b' = b\<lparr>buf_last := off\<rparr>"
      by (subst (asm) next_utf8_lines.simps) simp
    with np(1,2) show ?thesis by simp
  next
    case False
    with nl "1.prems" obtain s ls' where
      s: "to_utf8 cv (buf_e b) (buf_bytes b) line = Inr s" and
      rest: "next_utf8_lines cv finished (b\<lparr>buf_last := off\<rparr>) = Inr (ls', b')"
      by (subst (asm) next_utf8_lines.simps) (auto split: sum.splits)
    from "1.IH" [OF nl refl False s rest] np(1) show ?thesis by simp
  qed
qed

lemma calls_props:
  "calls cv cs b = Inr (ls, b') \<Longrightarrow> buf_last b \<le> length (buf_bytes b) \<Longrightarrow>
     buf_last b \<le> buf_last b' \<and> buf_last b' \<le> length (buf_bytes b') \<and> buf_e b' = buf_e b"
proof (induction cs arbitrary: b ls)
  case Nil
  then show ?case by simp
next
  case (Cons c cs)
  show ?case
  proof (cases c)
    case (Add bytes)
    with Cons.prems have "calls cv cs (add bytes b) = Inr (ls, b')"
      and "buf_last (add bytes b) \<le> length (buf_bytes (add bytes b))"
      by (simp_all add: add_def)
    from Cons.IH [OF this] show ?thesis by (simp add: add_def)
  next
    case (Next_utf8_lines finished)
    with Cons.prems(1) obtain l1 b1 l2 where
      one: "next_utf8_lines cv finished b = Inr (l1, b1)" and
      rest: "calls cv cs b1 = Inr (l2, b')"
      by (auto split: sum.splits)
    from next_utf8_lines_props [OF one]
    have p1: "buf_last b \<le> buf_last b1" "buf_last b1 \<le> length (buf_bytes b1)"
      "buf_e b1 = buf_e b" by simp_all
    from Cons.IH [OF rest p1(2)] p1 show ?thesis by simp
  qed
qed

subsection \<open>When the scan stays inside the buffer\<close>

lemma is_sep_defined: "p + sizeof c \<le> length bytes \<Longrightarrow> \<exists>b. is_sep c bytes p = Some b"
  by (cases c) (simp_all add: read_char_def read_wchar_def)

lemma aligned_step:
  assumes "p \<le> e" and "p \<noteq> e" and "sizeof c dvd (e - p)"
  shows "p + sizeof c \<le> e" and "sizeof c dvd (e - (p + sizeof c))"
proof -
  from assms(1,2) have pos: "0 < e - p" by simp
  with assms(3) have "sizeof c \<le> e - p" by (auto dest: dvd_imp_le)
  with assms(1) show le: "p + sizeof c \<le> e" by arith
  from assms(3) obtain k where k: "e - p = sizeof c * k" by (auto simp: dvd_def)
  with pos have "0 < k" by (cases k) simp_all
  then obtain k' where "k = Suc k'" by (cases k) simp_all
  with k have "e - (p + sizeof c) = sizeof c * k'" by simp
  then show "sizeof c dvd (e - (p + sizeof c))" by simp
qed

lemma skip_total:
  "e \<le> length bytes \<Longrightarrow> p \<le> e \<Longrightarrow> sizeof c dvd (e - p) \<Longrightarrow>
     \<exists>p'. skip c bytes e p = Inr p' \<and> p' \<le> e \<and> sizeof c dvd (e - p')"
proof (induction c bytes e p rule: skip.induct)
  case (1 c bytes e p)
  show ?case
  proof (cases "p = e")
    case True
    then show ?thesis by (subst skip.simps) simp
  next
    case ne: False
    note st = aligned_step [OF "1.prems"(2) ne "1.prems"(3)]
    from st(1) "1.prems"(1) obtain b where b: "is_sep c bytes p = Some b"
      using is_sep_defined [of p c bytes] by auto
    show ?thesis
    proof (cases b)
      case True
      from "1.IH" [of True] ne b True "1.prems"(1) st obtain p' where
        "skip c bytes e (p + sizeof c) = Inr p'" "p' \<le> e" "sizeof c dvd (e - p')" by auto
      with ne b True show ?thesis by (subst skip.simps) simp
    next
      case False
      with ne b "1.prems" show ?thesis by (subst skip.simps) simp
    qed
  qed
qed

lemma scan_total:
  "e \<le> length bytes \<Longrightarrow> p \<le> e \<Longrightarrow> sizeof c dvd (e - p) \<Longrightarrow>
     \<exists>line' p'. scan c bytes e start p line = Inr (line', p') \<and> p' \<le> e \<and> sizeof c dvd (e - p')"
proof (induction c bytes e start p line rule: scan.induct)
  case (1 c bytes e start p line)
  show ?case
  proof (cases "p = e")
    case True
    then show ?thesis by (subst scan.simps) simp
  next
    case ne: False
    note st = aligned_step [OF "1.prems"(2) ne "1.prems"(3)]
    from st(1) "1.prems"(1) obtain b where b: "is_sep c bytes p = Some b"
      using is_sep_defined [of p c bytes] by auto
    show ?thesis
    proof (cases b)
      case False
      from "1.IH"(2) [of False] ne b False "1.prems"(1) st obtain line' p' where
        "scan c bytes e start (p + sizeof c) line = Inr (line', p')" "p' \<le> e"
        "sizeof c dvd (e - p')" by auto
      with ne b False show ?thesis by (subst scan.simps) simp
    next
      case True
      from skip_total [OF "1.prems"] obtain q where
        q: "skip c bytes e p = Inr q" "q \<le> e" "sizeof c dvd (e - q)" by auto
      show ?thesis
      proof (cases "view_empty (start, (p - start) div sizeof c)")
        case False
        with ne b True q show ?thesis by (subst scan.simps) simp
      next
        case emp: True
        from "1.IH"(1) [of True q] ne b True q "1.prems"(1) emp obtain line' p' where
          "scan c bytes e q q (start, (p - start) div sizeof c) = Inr (line', p')" "p' \<le> e"
          "sizeof c dvd (e - p')" by auto
        with ne b True q emp show ?thesis by (subst scan.simps) simp
      qed
    qed
  qed
qed

text \<open>
  A state is aligned when the offset is inside the buffer and, for two-byte units, even.
  From an aligned state \<open>next_line\<close> returns, and a line it has found by scanning lies
  inside the buffer; so does the rest of the buffer returned under \<open>finished\<close> when units
  are bytes.
\<close>

definition aligned :: "CharT \<Rightarrow> string \<Rightarrow> nat \<Rightarrow> bool" where
  "aligned c bytes off = (off \<le> length bytes \<and> (sizeof c = 2 \<longrightarrow> even off))"

lemma next_line_total:
  assumes "aligned c bytes byte_offset"
  shows "\<exists>line off. next_line c finished bytes byte_offset = Inr (line, off)
           \<and> (\<not> finished \<longrightarrow> aligned c bytes off)"
proof -
  define size where
    "size = (if sizeof c = 2 \<and> odd (length bytes) then length bytes - 1 else length bytes)"
  have size_le: "size \<le> length bytes" by (simp add: size_def)
  have size_even: "sizeof c = 2 \<Longrightarrow> even size" by (simp add: size_def)
  from assms have off_le: "byte_offset \<le> size"
    by (cases c) (auto simp: aligned_def size_def elim!: oddE)
  from assms size_even have dv: "sizeof c dvd (size - byte_offset)"
    by (cases c) (auto simp: aligned_def)
  from scan_total [OF size_le off_le dv] obtain l p where
    sc: "scan c bytes size byte_offset byte_offset (0, 0) = Inr (l, p)"
    and p: "p \<le> size" "sizeof c dvd (size - p)" by blast
  from p size_even have p_even: "sizeof c = 2 \<Longrightarrow> even p"
    by (cases c) (auto simp: dvd_diff_nat)
  from sc p size_le p_even assms show ?thesis
    by (auto simp: next_line_def size_def [symmetric] Let_def aligned_def)
qed

lemma next_line_view:
  assumes "next_line c finished bytes byte_offset = Inr (line, off)"
    and "\<not> view_empty line" and "c = char_t \<or> \<not> finished"
  shows "fst line + sizeof c * snd line \<le> length bytes"
proof -
  define size where
    "size = (if sizeof c = 2 \<and> odd (length bytes) then length bytes - 1 else length bytes)"
  have size_le: "size \<le> length bytes" by (simp add: size_def)
  from assms(1) obtain l p where sc: "scan c bytes size byte_offset byte_offset (0, 0) = Inr (l, p)"
    by (auto simp: next_line_def size_def Let_def split: sum.splits)
  from scan_props [OF sc] have
    sp: "byte_offset \<le> p" "p = size \<or> p + sizeof c \<le> length bytes"
      "\<not> view_empty l \<Longrightarrow> fst l + sizeof c * snd l + sizeof c \<le> p"
    by (simp_all add: view_empty_def)
  from sp(1,2) size_le have p_le: "byte_offset \<le> length bytes" "p \<le> length bytes" by auto
  show ?thesis
  proof (cases "view_empty l")
    case False
    with assms(1) sc have "line = l"
      by (simp add: next_line_def size_def [symmetric] Let_def)
    with sp(3) [OF False] p_le show ?thesis by simp
  next
    case True
    with assms(1,2) sc have "finished" "line = (byte_offset, size - byte_offset)"
      by (auto simp: next_line_def size_def [symmetric] Let_def split: if_splits)
    with assms(3) p_le show ?thesis by (simp add: size_def)
  qed
qed

lemma to_utf8_defined:
  assumes "fst v + sizeof (line_CharT e) * snd v \<le> length bytes"
  shows "\<exists>s. to_utf8 cv e bytes v = Inr s"
  using assms by (cases e) (simp_all add: view_chars_def view_wchars_def)

lemma next_utf8_lines_total:
  "aligned (line_CharT (buf_e b)) (buf_bytes b) (buf_last b) \<Longrightarrow>
   line_CharT (buf_e b) = char_t \<or> \<not> finished \<Longrightarrow>
     \<exists>ls b'. next_utf8_lines cv finished b = Inr (ls, b')"
proof (induction cv finished b rule: next_utf8_lines.induct)
  case (1 cv finished b)
  from next_line_total [OF "1.prems"(1), of finished] obtain line off where
    nl: "next_line (line_CharT (buf_e b)) finished (buf_bytes b) (buf_last b) = Inr (line, off)"
    and al: "\<not> finished \<Longrightarrow> aligned (line_CharT (buf_e b)) (buf_bytes b) off" by blast
  show ?case
  proof (cases "view_empty line")
    case True
    with nl show ?thesis by (subst next_utf8_lines.simps) simp
  next
    case False
    from next_line_view [OF nl False "1.prems"(2)] obtain s where
      s: "to_utf8 cv (buf_e b) (buf_bytes b) line = Inr s"
      using to_utf8_defined by blast
    from next_line_props(2) [OF nl] al "1.prems"(2)
    have "aligned (line_CharT (buf_e b)) (buf_bytes b) off"
      by (auto simp: aligned_def)
    with "1.IH" [OF nl refl False s] "1.prems"(2) obtain ls b' where
      "next_utf8_lines cv finished (b\<lparr>buf_last := off\<rparr>) = Inr (ls, b')" by auto
    with nl False s show ?thesis by (subst next_utf8_lines.simps) simp
  qed
qed

lemma calls_total:
  "line_CharT (buf_e b) = char_t \<Longrightarrow> buf_last b \<le> length (buf_bytes b) \<Longrightarrow>
     \<exists>ls b'. calls cv cs b = Inr (ls, b')"
proof (induction cs arbitrary: b)
  case Nil
  show ?case by simp
next
  case (Cons c cs)
  show ?case
  proof (cases c)
    case (Add bytes)
    from Cons.prems have "line_CharT (buf_e (add bytes b)) = char_t"
      and "buf_last (add bytes b) \<le> length (buf_bytes (add bytes b))"
      by (simp_all add: add_def)
    from Cons.IH [OF this] Add show ?thesis by simp
  next
    case (Next_utf8_lines finished)
    from Cons.prems have "aligned (line_CharT (buf_e b)) (buf_bytes b) (buf_last b)"
      by (simp add: aligned_def)
    from next_utf8_lines_total [OF this, of finished cv] Cons.prems(1) obtain l1 b1 where
      one: "next_utf8_lines cv finished b = Inr (l1, b1)" by auto
    from next_utf8_lines_props [OF one] Cons.prems(1)
    have "line_CharT (buf_e b1) = char_t" "buf_last b1 \<le> length (buf_bytes b1)" by simp_all
    from Cons.IH [OF this] obtain l2 b2 where "calls cv cs b1 = Inr (l2, b2)" by auto
    with one Next_utf8_lines show ?thesis by simp
  qed
qed

lemma flushed_is_quiet:
  assumes "line_CharT (buf_e b) = char_t" and "buf_last b = length (buf_bytes b)"
  shows "next_utf8_lines cv finished b = Inr ([], b)"
proof -
  have "scan char_t (buf_bytes b) (length (buf_bytes b)) (buf_last b) (buf_last b) (0, 0)
      = Inr ((0, 0), buf_last b)"
    using assms(2) by (subst scan.simps) simp
  with assms have "next_line (line_CharT (buf_e b)) finished (buf_bytes b) (buf_last b)
      = Inr (if finished then (buf_last b, 0) else (0, 0), buf_last b)"
    by (simp add: next_line_def view_empty_def Let_def)
  then show ?thesis
    by (subst next_utf8_lines.simps) (simp add: view_empty_def)
qed

lemma flush_reaches_end:
  "next_utf8_lines cv True b = Inr (ls, b') \<Longrightarrow> buf_last b' = length (buf_bytes b')"
proof (induction cv "True" b arbitrary: ls rule: next_utf8_lines.induct)
  case (1 cv b)
  from "1.prems" obtain line off where
    nl: "next_line (line_CharT (buf_e b)) True (buf_bytes b) (buf_last b) = Inr (line, off)"
    by (subst (asm) next_utf8_lines.simps) (auto split: sum.splits)
  show ?case
  proof (cases "view_empty line")
    case True
    with nl "1.prems" have "b' = b\<lparr>buf_last := off\<rparr>"
      by (subst (asm) next_utf8_lines.simps) simp
    with next_line_props(6) [OF nl True] show ?thesis by simp
  next
    case False
    with nl "1.prems" obtain s ls' where
      s: "to_utf8 cv (buf_e b) (buf_bytes b) line = Inr s" and
      rest: "next_utf8_lines cv True (b\<lparr>buf_last := off\<rparr>) = Inr (ls', b')"
      by (subst (asm) next_utf8_lines.simps) (auto split: sum.splits)
    from "1.hyps" [OF nl refl False s rest] show ?thesis .
  qed
qed

text \<open>
  Under an encoding with one-byte units, once \<open>next_utf8_lines(true, f)\<close> has returned,
  any later call without an \<open>add\<close> in between calls \<open>f\<close> not at all and leaves the
  buffer as it is.
\<close>

lemma flush_once_single_byte:
  assumes "line_CharT (buf_e b) = char_t" and "next_utf8_lines cv True b = Inr (ls, b')"
  shows "next_utf8_lines cv finished b' = Inr ([], b')"
proof -
  from next_utf8_lines_props [OF assms(2)] assms(1) have "line_CharT (buf_e b') = char_t" by simp
  moreover from assms(2) have "buf_last b' = length (buf_bytes b')" by (rule flush_reaches_end)
  ultimately show ?thesis by (rule flushed_is_quiet)
qed

subsection \<open>Bytes before the offset are not looked at\<close>

text \<open>
  Two buffers of one length that hold the same bytes from \<open>off\<close> on. What a call
  computes from one it computes from the other: the bytes before the offset have no part
  in it.
\<close>

definition same_from :: "nat \<Rightarrow> string \<Rightarrow> string \<Rightarrow> bool" where
  "same_from off bytes bytes' = (length bytes = length bytes' \<and> drop off bytes = drop off bytes')"

text \<open>What a caller sees of \<open>next_utf8_lines\<close>: the lines, and the new offset.\<close>

definition observed ::
  "error + (string list \<times> encoded_buffer) \<Rightarrow> error + (string list \<times> nat)" where
  "observed r = (case r of Inl err \<Rightarrow> Inl err | Inr (ls, b) \<Rightarrow> Inr (ls, buf_last b))"

lemma same_from_mono:
  assumes "same_from off bytes bytes'" and "off \<le> off'"
  shows "same_from off' bytes bytes'"
proof -
  from assms(2) have "drop off' xs = drop (off' - off) (drop off xs)" for xs :: string
    by simp
  with assms(1) show ?thesis by (simp add: same_from_def del: drop_drop)
qed

lemma same_from_nth:
  assumes "same_from off bytes bytes'" and "off \<le> i" and "i < length bytes"
  shows "bytes ! i = bytes' ! i"
proof -
  from assms have le: "off \<le> length bytes" "off \<le> length bytes'"
    by (simp_all add: same_from_def)
  from assms(2) have i: "off + (i - off) = i" by simp
  from assms(1) have eq: "drop off bytes = drop off bytes'"
    by (simp add: same_from_def)
  have "bytes ! i = drop off bytes ! (i - off)"
    using nth_drop [OF le(1), of "i - off"] by (simp only: i)
  also have "\<dots> = bytes' ! i"
    using nth_drop [OF le(2), of "i - off"] by (simp only: i eq)
  finally show ?thesis .
qed

lemma is_sep_same:
  assumes "same_from off bytes bytes'" and "off \<le> p"
  shows "is_sep c bytes p = is_sep c bytes' p"
proof -
  from assms(1) have len: "length bytes' = length bytes" by (simp add: same_from_def)
  show ?thesis
  proof (cases c)
    case char_t
    with assms len show ?thesis
      by (auto simp: read_char_def dest: same_from_nth)
  next
    case wchar_t
    have "wchar_of (bytes ! p) (bytes ! (p + 1)) = wchar_of (bytes' ! p) (bytes' ! (p + 1))"
      if "p + 1 < length bytes"
      using that assms same_from_nth [of off bytes bytes' p]
        same_from_nth [of off bytes bytes' "p + 1"] by simp
    with wchar_t len show ?thesis
      by (simp add: read_wchar_def)
  qed
qed

lemma skip_same:
  "same_from off bytes bytes' \<Longrightarrow> off \<le> p \<Longrightarrow> skip c bytes e p = skip c bytes' e p"
proof (induction c bytes e p rule: skip.induct)
  case (1 c bytes e p)
  note sep = is_sep_same [OF "1.prems", of c]
  show ?case
  proof (cases "p = e")
    case True
    then show ?thesis by (simp add: skip.simps [of c _ e e])
  next
    case ne: False
    show ?thesis
    proof (cases "is_sep c bytes p")
      case None
      with ne sep show ?thesis
        by (simp add: skip.simps [of c bytes e p] skip.simps [of c bytes' e p])
    next
      case (Some b)
      show ?thesis
      proof (cases b)
        case True
        with "1.IH" [of True] ne Some "1.prems"
        have "skip c bytes e (p + sizeof c) = skip c bytes' e (p + sizeof c)" by simp
        with ne Some True sep show ?thesis
          by (simp add: skip.simps [of c bytes e p] skip.simps [of c bytes' e p])
      next
        case False
        with ne Some sep show ?thesis
          by (simp add: skip.simps [of c bytes e p] skip.simps [of c bytes' e p])
      qed
    qed
  qed
qed

lemma scan_same:
  "same_from off bytes bytes' \<Longrightarrow> off \<le> p \<Longrightarrow>
     scan c bytes e start p line = scan c bytes' e start p line"
proof (induction c bytes e start p line rule: scan.induct)
  case (1 c bytes e start p line)
  note sep = is_sep_same [OF "1.prems", of c]
  note sk = skip_same [OF "1.prems", of c e]
  note unfold = scan.simps [of c bytes e start p line] scan.simps [of c bytes' e start p line]
  show ?case
  proof (cases "p = e")
    case True
    then show ?thesis by (simp add: scan.simps [of c _ e start e line])
  next
    case ne: False
    show ?thesis
    proof (cases "is_sep c bytes p")
      case None
      with ne sep show ?thesis by (simp add: unfold)
    next
      case (Some b)
      show ?thesis
      proof (cases b)
        case False
        with "1.IH"(2) [of False] ne Some "1.prems"
        have "scan c bytes e start (p + sizeof c) line = scan c bytes' e start (p + sizeof c) line"
          by simp
        with ne Some False sep show ?thesis by (simp add: unfold)
      next
        case True
        show ?thesis
        proof (cases "skip c bytes e p")
          case (Inl err)
          moreover from Inl sk have "skip c bytes' e p = Inl err" by simp
          ultimately show ?thesis using ne Some True sep by (simp add: unfold)
        next
          case (Inr q)
          with ne Some True have "p \<le> q" by (auto dest: skip_mono)
          show ?thesis
          proof (cases "view_empty (start, (p - start) div sizeof c)")
            case False
            with ne Some True Inr sep sk show ?thesis by (simp add: unfold)
          next
            case emp: True
            from "1.IH"(1) [of True q] ne Some True Inr emp "1.prems" \<open>p \<le> q\<close>
            have "scan c bytes e q q (start, (p - start) div sizeof c)
                = scan c bytes' e q q (start, (p - start) div sizeof c)" by simp
            with ne Some True Inr emp sep sk show ?thesis by (simp add: unfold)
          qed
        qed
      qed
    qed
  qed
qed

lemma next_line_same:
  assumes "same_from off bytes bytes'"
  shows "next_line c finished bytes off = next_line c finished bytes' off"
proof -
  from assms have len: "length bytes = length bytes'" by (simp add: same_from_def)
  have sc: "scan c bytes e off off (0, 0) = scan c bytes' e off off (0, 0)" for e
    using assms by (rule scan_same) simp
  show ?thesis unfolding next_line_def len sc ..
qed

lemma to_utf8_same:
  assumes "same_from off bytes bytes'" and "off \<le> fst v"
  shows "to_utf8 cv e bytes v = to_utf8 cv e bytes' v"
proof -
  from assms have "same_from (fst v) bytes bytes'" by (rule same_from_mono)
  then have "length bytes' = length bytes" "drop (fst v) bytes' = drop (fst v) bytes"
    by (simp_all add: same_from_def)
  then have "view_chars bytes' v = view_chars bytes v" "view_wchars bytes' v = view_wchars bytes v"
    by (simp_all add: view_chars_def view_wchars_def)
  then show ?thesis by (cases e) simp_all
qed

lemma next_utf8_lines_same:
  "buf_e b2 = buf_e b \<Longrightarrow> buf_last b2 = buf_last b \<Longrightarrow>
   same_from (buf_last b) (buf_bytes b) (buf_bytes b2) \<Longrightarrow>
     observed (next_utf8_lines cv finished b2) = observed (next_utf8_lines cv finished b)"
proof (induction cv finished b arbitrary: b2 rule: next_utf8_lines.induct)
  case (1 cv finished b)
  let ?c = "line_CharT (buf_e b)"
  from "1.prems" have nl2:
    "next_line (line_CharT (buf_e b2)) finished (buf_bytes b2) (buf_last b2)
       = next_line ?c finished (buf_bytes b) (buf_last b)"
    by (simp add: next_line_same [of "buf_last b" "buf_bytes b" "buf_bytes b2"])
  show ?case
  proof (cases "next_line ?c finished (buf_bytes b) (buf_last b)")
    case (Inl err)
    with nl2 show ?thesis
      by (simp add: observed_def next_utf8_lines.simps [of cv finished b]
          next_utf8_lines.simps [of cv finished b2])
  next
    case (Inr r)
    obtain line off where r: "r = (line, off)" by (cases r)
    note nl = Inr [unfolded r]
    show ?thesis
    proof (cases "view_empty line")
      case True
      with nl nl2 show ?thesis
        by (simp add: observed_def next_utf8_lines.simps [of cv finished b]
            next_utf8_lines.simps [of cv finished b2])
    next
      case False
      from next_line_props [OF nl] False
      have le: "buf_last b \<le> fst line" "buf_last b \<le> off" by simp_all
      from "1.prems" le(1) have tu:
        "to_utf8 cv (buf_e b2) (buf_bytes b2) line = to_utf8 cv (buf_e b) (buf_bytes b) line"
        by (simp add: to_utf8_same [of "buf_last b" "buf_bytes b" "buf_bytes b2"])
      show ?thesis
      proof (cases "to_utf8 cv (buf_e b) (buf_bytes b) line")
        case (Inl err)
        with nl nl2 False tu show ?thesis
          by (simp add: observed_def next_utf8_lines.simps [of cv finished b]
              next_utf8_lines.simps [of cv finished b2])
      next
        case (Inr s)
        from "1.prems"(3) le(2) have "same_from off (buf_bytes b) (buf_bytes b2)"
          by (rule same_from_mono)
        with "1.IH" [OF nl refl False Inr, of "b2\<lparr>buf_last := off\<rparr>"] "1.prems"(1)
        have "observed (next_utf8_lines cv finished (b2\<lparr>buf_last := off\<rparr>))
            = observed (next_utf8_lines cv finished (b\<lparr>buf_last := off\<rparr>))" by simp
        with nl nl2 False tu Inr show ?thesis
          by (auto simp add: observed_def next_utf8_lines.simps [of cv finished b]
              next_utf8_lines.simps [of cv finished b2] split: sum.splits prod.splits)
      qed
    qed
  qed
qed

lemma calls_mono:
  "calls cv cs b = Inr (ls, b') \<Longrightarrow> buf_last b \<le> buf_last b'"
proof (induction cs arbitrary: b ls)
  case Nil
  then show ?case by simp
next
  case (Cons c cs)
  show ?case
  proof (cases c)
    case (Add bytes)
    with Cons.prems have "calls cv cs (add bytes b) = Inr (ls, b')" by simp
    from Cons.IH [OF this] show ?thesis by (simp add: add_def)
  next
    case (Next_utf8_lines finished)
    with Cons.prems obtain l1 b1 l2 where
      one: "next_utf8_lines cv finished b = Inr (l1, b1)" and
      rest: "calls cv cs b1 = Inr (l2, b')"
      by (auto split: sum.splits)
    from next_utf8_lines_props [OF one] Cons.IH [OF rest] show ?thesis by simp
  qed
qed

lemma length_wchars: "length (wchars bytes) = length bytes div 2"
  by (induction bytes rule: wchars.induct) simp_all

lemma view_chars_nonempty:
  assumes "view_chars bytes v = Inr s" and "\<not> view_empty v"
  shows "s \<noteq> []"
proof -
  from assms(1) have "fst v + snd v \<le> length bytes" "s = take (snd v) (drop (fst v) bytes)"
    by (auto simp: view_chars_def split: if_splits)
  then have "length s = snd v" by simp
  with assms(2) show ?thesis by (auto simp: view_empty_def)
qed

lemma view_wchars_nonempty:
  assumes "view_wchars bytes v = Inr ws" and "\<not> view_empty v"
  shows "ws \<noteq> []"
proof -
  from assms(1) have "fst v + 2 * snd v \<le> length bytes"
    "ws = wchars (take (2 * snd v) (drop (fst v) bytes))"
    by (auto simp: view_wchars_def split: if_splits)
  then have "length ws = snd v" by (simp add: length_wchars)
  with assms(2) show ?thesis by (auto simp: view_empty_def)
qed

lemma next_utf8_lines_lines:
  "next_utf8_lines cv finished b = Inr (ls, b') \<Longrightarrow> l \<in> set ls \<Longrightarrow>
     \<exists>v. \<not> view_empty v \<and> to_utf8 cv (buf_e b) (buf_bytes b) v = Inr l"
proof (induction cv finished b arbitrary: ls rule: next_utf8_lines.induct)
  case (1 cv finished b)
  from "1.prems"(1) obtain line off where
    nl: "next_line (line_CharT (buf_e b)) finished (buf_bytes b) (buf_last b) = Inr (line, off)"
    by (subst (asm) next_utf8_lines.simps) (auto split: sum.splits)
  show ?case
  proof (cases "view_empty line")
    case True
    with nl "1.prems"(1) have "ls = []"
      by (subst (asm) next_utf8_lines.simps) simp
    with "1.prems"(2) show ?thesis by simp
  next
    case False
    with nl "1.prems"(1) obtain s ls' where
      s: "to_utf8 cv (buf_e b) (buf_bytes b) line = Inr s" and
      rest: "next_utf8_lines cv finished (b\<lparr>buf_last := off\<rparr>) = Inr (ls', b')" and
      ls: "ls = s # ls'"
      by (subst (asm) next_utf8_lines.simps) (auto split: sum.splits)
    from "1.prems"(2) ls consider "l = s" | "l \<in> set ls'" by auto
    then show ?thesis
    proof cases
      case 1
      with False s show ?thesis by blast
    next
      case 2
      with "1.IH" [OF nl refl False s rest] show ?thesis by simp
    qed
  qed
qed

text \<open>
  What the code keeps of the odd-byte safety: as long as \<open>finished\<close> is not set, a call
  under \<open>utf16\<close> from an even offset inside the buffer returns without a read outside
  the buffer, and leaves the offset even and, when the number of bytes is odd, in front of
  the last byte.
\<close>

lemma next_utf8_lines_aligned:
  "next_utf8_lines cv False b = Inr (ls, b') \<Longrightarrow>
   aligned (line_CharT (buf_e b)) (buf_bytes b) (buf_last b) \<Longrightarrow>
     aligned (line_CharT (buf_e b)) (buf_bytes b) (buf_last b')"
proof (induction cv "False" b arbitrary: ls rule: next_utf8_lines.induct)
  case (1 cv b)
  from next_line_total [OF "1.prems"(2), of False] obtain line off where
    nl: "next_line (line_CharT (buf_e b)) False (buf_bytes b) (buf_last b) = Inr (line, off)"
    and al: "aligned (line_CharT (buf_e b)) (buf_bytes b) off" by auto
  show ?case
  proof (cases "view_empty line")
    case True
    with nl "1.prems"(1) have "b' = b\<lparr>buf_last := off\<rparr>"
      by (subst (asm) next_utf8_lines.simps) simp
    with al show ?thesis by simp
  next
    case False
    with nl "1.prems"(1) obtain s ls' where
      s: "to_utf8 cv (buf_e b) (buf_bytes b) line = Inr s" and
      rest: "next_utf8_lines cv False (b\<lparr>buf_last := off\<rparr>) = Inr (ls', b')"
      by (subst (asm) next_utf8_lines.simps) (auto split: sum.splits)
    from "1.hyps" [OF nl refl False s rest] al show ?thesis by simp
  qed
qed

lemma utf16_unfinished_keeps_odd_byte:
  assumes "buf_e b = utf16" and "even (buf_last b)" and "buf_last b \<le> length (buf_bytes b)"
  shows "\<exists>ls b'. next_utf8_lines cv False b = Inr (ls, b') \<and> even (buf_last b')
           \<and> (odd (length (buf_bytes b')) \<longrightarrow> buf_last b' < length (buf_bytes b'))"
proof -
  from assms have al: "aligned (line_CharT (buf_e b)) (buf_bytes b) (buf_last b)"
    by (simp add: aligned_def)
  from next_utf8_lines_total [OF al, of False cv] obtain ls b' where
    run: "next_utf8_lines cv False b = Inr (ls, b')" by auto
  from next_utf8_lines_aligned [OF run al] assms(1)
  have "even (buf_last b')" "buf_last b' \<le> length (buf_bytes b)"
    by (simp_all add: aligned_def)
  moreover from next_utf8_lines_props [OF run] have "buf_bytes b' = buf_bytes b" by simp
  ultimately have "even (buf_last b')"
    "odd (length (buf_bytes b')) \<longrightarrow> buf_last b' < length (buf_bytes b')"
    by (auto simp: le_less)
  with run show ?thesis by blast
qed

text \<open>
  What the code keeps for a stream of separators: as long as \<open>finished\<close> is not set, a
  call under a one-byte encoding on a buffer that holds nothing but \<open>'\n'\<close> and \<open>'\r'\<close>
  from the offset on calls \<open>f\<close> not at all and leaves the offset where it is.
\<close>

lemma skip_separators:
  "e = length bytes \<Longrightarrow> p \<le> e \<Longrightarrow>
   \<forall>i. p \<le> i \<and> i < e \<longrightarrow> bytes ! i = CHR 0x0A \<or> bytes ! i = CHR 0x0D \<Longrightarrow>
     skip c bytes e p = Inr e" if "c = char_t"
  using that
proof (induction c bytes e p rule: skip.induct)
  case (1 c bytes e p)
  show ?case
  proof (cases "p = e")
    case True
    then show ?thesis by (subst skip.simps) simp
  next
    case ne: False
    with "1.prems" have sep: "is_sep c bytes p = Some True"
      by (auto simp: read_char_def)
    from ne "1.prems" have "skip c bytes e (p + sizeof c) = Inr e"
      by (intro "1.IH" [OF ne sep]) auto
    with ne sep show ?thesis by (subst skip.simps) simp
  qed
qed

lemma separators_only_unfinished:
  assumes "line_CharT (buf_e b) = char_t" and "buf_last b \<le> length (buf_bytes b)"
    and "\<forall>i. buf_last b \<le> i \<and> i < length (buf_bytes b) \<longrightarrow>
           buf_bytes b ! i = CHR 0x0A \<or> buf_bytes b ! i = CHR 0x0D"
  shows "next_utf8_lines cv False b = Inr ([], b)"
proof -
  let ?bs = "buf_bytes b" and ?off = "buf_last b"
  have "\<exists>line. scan char_t ?bs (length ?bs) ?off ?off (0, 0) = Inr (line, length ?bs)
      \<and> view_empty line"
  proof (cases "?off = length ?bs")
    case True
    then show ?thesis by (subst scan.simps) (simp add: view_empty_def)
  next
    case ne: False
    with assms(2,3) have sep: "is_sep char_t ?bs ?off = Some True"
      by (auto simp: read_char_def)
    from assms(2,3) have sk: "skip char_t ?bs (length ?bs) ?off = Inr (length ?bs)"
      by (intro skip_separators) auto
    have "scan char_t ?bs (length ?bs) (length ?bs) (length ?bs) (?off, 0)
        = Inr ((?off, 0), length ?bs)"
      by (subst scan.simps) simp
    with ne sep sk show ?thesis
      by (subst scan.simps) (simp add: view_empty_def del: is_sep.simps)
  qed
  then obtain line where "scan char_t ?bs (length ?bs) ?off ?off (0, 0) = Inr (line, length ?bs)"
    and "view_empty line" by blast
  with assms(1) have "next_line (line_CharT (buf_e b)) False ?bs ?off = Inr (line, ?off)"
    by (simp add: next_line_def)
  with \<open>view_empty line\<close> show ?thesis
    by (subst next_utf8_lines.simps) simp
qed

text \<open>
  What the code keeps of the offset invariant, as long as no read leaves the buffer: the
  offset is inside a new buffer, \<open>add\<close> keeps it inside, and it is inside after every
  \<open>next_utf8_lines\<close> and every sequence of calls that the model runs to its end. Each
  scan starts at the offset and the bytes before it are not scanned again: two buffers of
  the same length and encoding that agree from the offset on give \<open>f\<close> the same lines
  and end at the same offset, whatever the bytes before the offset are.
\<close>

lemma offset_inside_while_reads_stay_inside:
  "buf_last (new_encoded_buffer e bytes) \<le> length (buf_bytes (new_encoded_buffer e bytes))
   \<and> (buf_last b \<le> length (buf_bytes b) \<longrightarrow>
        buf_last (add bytes b) \<le> length (buf_bytes (add bytes b)))
   \<and> (next_utf8_lines cv finished b = Inr (ls, b') \<longrightarrow> buf_last b' \<le> length (buf_bytes b'))
   \<and> (calls cv cs (new_encoded_buffer e bytes) = Inr (ls', b'') \<longrightarrow>
        buf_last b'' \<le> length (buf_bytes b''))
   \<and> (buf_e c2 = buf_e c1 \<and> buf_last c2 = buf_last c1
        \<and> same_from (buf_last c1) (buf_bytes c1) (buf_bytes c2) \<longrightarrow>
        observed (next_utf8_lines cv finished c2) = observed (next_utf8_lines cv finished c1))"
proof (intro conjI impI)
  show "buf_last (new_encoded_buffer e bytes) \<le> length (buf_bytes (new_encoded_buffer e bytes))"
    by (simp add: new_encoded_buffer_def)
  show "buf_last (add bytes b) \<le> length (buf_bytes (add bytes b))"
    if "buf_last b \<le> length (buf_bytes b)"
    using that by (simp add: add_def)
  show "buf_last b' \<le> length (buf_bytes b')" if "next_utf8_lines cv finished b = Inr (ls, b')"
    using next_utf8_lines_props [OF that] by simp
  show "buf_last b'' \<le> length (buf_bytes b'')"
    if "calls cv cs (new_encoded_buffer e bytes) = Inr (ls', b'')"
    using calls_props [OF that] by (simp add: new_encoded_buffer_def)
  show "observed (next_utf8_lines cv finished c2) = observed (next_utf8_lines cv finished c1)"
    if "buf_e c2 = buf_e c1 \<and> buf_last c2 = buf_last c1
        \<and> same_from (buf_last c1) (buf_bytes c1) (buf_bytes c2)"
    using that by (auto intro: next_utf8_lines_same)
qed

subsection \<open>The scan behind the buffer\<close>

text \<open>
  \<open>next_line\<close> once more, on a memory that goes on behind the buffer: \<open>behind\<close> holds
  the bytes that follow the buffer's own, so a read outside the buffer finds what is
  there. Only the reads differ from \<open>next_line\<close>; \<open>bytes.size()\<close> is the length of the
  buffer as before. The result is the line and the \<open>byte_offset\<close> that line 154 or line
  149 has stored; \<open>MOB_ASSERT(byte_offset <= bytes.size())\<close> of line 157 comes after the
  store.
\<close>

definition next_line_in_memory ::
  "CharT \<Rightarrow> bool \<Rightarrow> string \<Rightarrow> string \<Rightarrow> nat \<Rightarrow> error + (view \<times> nat)" where
  "next_line_in_memory c finished bytes behind byte_offset =
     (let size = (if sizeof c = 2 \<and> odd (length bytes) then length bytes - 1 else length bytes)
      in case scan c (bytes @ behind) size byte_offset byte_offset (0, 0) of
           Inl err \<Rightarrow> Inl err
         | Inr (line, p) \<Rightarrow>
             if view_empty line then
               (if finished then Inr ((byte_offset, size - byte_offset), length bytes)
                else Inr (line, byte_offset))
             else Inr (line, p))"

lemma next_line_in_memory_Nil:
  "next_line_in_memory c finished bytes [] byte_offset = next_line c finished bytes byte_offset"
  by (simp add: next_line_in_memory_def next_line_def)

text \<open>
  A scan that starts behind its \<open>end\<close> cannot reach \<open>p == end\<close>: it leaves the loop by
  the \<open>break\<close> only, and the offset stored then lies behind the one it started from.
\<close>

lemma scan_from_behind_end:
  assumes "next_line_in_memory c finished bytes behind byte_offset = Inr (line, off)"
    and "(if sizeof c = 2 \<and> odd (length bytes) then length bytes - 1 else length bytes)
           < byte_offset"
  shows "byte_offset + sizeof c \<le> off"
proof -
  define size where
    "size = (if sizeof c = 2 \<and> odd (length bytes) then length bytes - 1 else length bytes)"
  from assms(1) obtain l p where
    sc: "scan c (bytes @ behind) size byte_offset byte_offset (0, 0) = Inr (l, p)"
    by (auto simp: next_line_in_memory_def size_def Let_def split: sum.splits)
  from scan_props [OF sc] have
    sp: "byte_offset \<le> p" "view_empty l \<Longrightarrow> p = size"
      "\<not> view_empty l \<Longrightarrow> byte_offset \<le> fst l \<and> fst l + sizeof c * snd l + sizeof c \<le> p"
    by (simp_all add: view_empty_def)
  from sp(1,2) assms(2) have ne: "\<not> view_empty l"
    by (auto simp: size_def)
  with assms(1) sc have "off = p"
    by (simp add: next_line_in_memory_def size_def [symmetric] Let_def)
  with sp(3) [OF ne] show ?thesis by simp
qed

section \<open>\<open>process::pipe\<close>\<close>

text \<open>
  \<open>pipe(p)\<close> returns its argument. \<open>pipe(p1, p2, ps...)\<close> copies \<open>p1\<close> into \<open>r\<close>,
  calls \<open>r.pipe_into(p2)\<close>, calls \<open>pipe(r, ps...)\<close> and returns \<open>r\<close>. The inner call
  takes \<open>r\<close> by reference to const (or by value, when \<open>ps\<close> is empty) and works on a
  copy of its own, whose result is discarded. \<open>pipe_into\<close> is declared in
  \<open>process.h\<close> and defined elsewhere; it is a parameter here, the function from \<open>r\<close>
  before the call and \<open>p2\<close> to \<open>r\<close> after it.
\<close>

fun pipe :: "('p \<Rightarrow> 'p \<Rightarrow> 'p) \<Rightarrow> 'p \<Rightarrow> 'p list \<Rightarrow> 'p" where
  "pipe pipe_into p [] = p"
| "pipe pipe_into p1 (p2 # ps) =
     (let r = pipe_into p1 p2;
          unused = pipe pipe_into r ps
      in r)"

text \<open>
  Modelled from the spec: \<open>process::pipe_into\<close>, whose definition is not among the
  sources. The spec composes a left-to-right chain in which each descriptor's captured
  stdout becomes the next descriptor's stdin; a descriptor is taken here as the chain of
  commands it stands for, \<open>raw\<close> makes the descriptor of one command, and \<open>pipe_into\<close>
  puts the chain of \<open>p\<close> behind its own.
\<close>

record process =
  chain :: "string list"

definition pipe_into :: "process \<Rightarrow> process \<Rightarrow> process" where
  "pipe_into r p = r\<lparr>chain := chain r @ chain p\<rparr>"

definition raw :: "string \<Rightarrow> process" where
  "raw cmd = \<lparr>chain = [cmd]\<rparr>"

section \<open>The claims\<close>

subsection \<open>Lines of concrete streams\<close>

text \<open>
  C5. Trailing partial line: after \<open>add("partial")\<close>, \<open>next_utf8_lines(false, f)\<close> calls
  \<open>f\<close> not at all; \<open>next_utf8_lines(true, f)\<close> then calls it once, with \<open>"partial"\<close>; a
  call after that, with either flag, does not call \<open>f\<close>. Stated for the encodings whose
  lines reach \<open>f\<close> unconverted, \<open>dont_know\<close> (the default) and \<open>utf8\<close>, and for any
  converters.
\<close>

theorem trailing_partial_line:
  "next_utf8_lines cv False (add ''partial'' (new_encoded_buffer dont_know []))
     = Inr ([], \<lparr>buf_e = dont_know, buf_bytes = ''partial'', buf_last = 0\<rparr>)
   \<and> next_utf8_lines cv True \<lparr>buf_e = dont_know, buf_bytes = ''partial'', buf_last = 0\<rparr>
     = Inr ([''partial''], \<lparr>buf_e = dont_know, buf_bytes = ''partial'', buf_last = 7\<rparr>)
   \<and> next_utf8_lines cv finished \<lparr>buf_e = dont_know, buf_bytes = ''partial'', buf_last = 7\<rparr>
     = Inr ([], \<lparr>buf_e = dont_know, buf_bytes = ''partial'', buf_last = 7\<rparr>)
   \<and> next_utf8_lines cv False (add ''partial'' (new_encoded_buffer utf8 []))
     = Inr ([], \<lparr>buf_e = utf8, buf_bytes = ''partial'', buf_last = 0\<rparr>)
   \<and> next_utf8_lines cv True \<lparr>buf_e = utf8, buf_bytes = ''partial'', buf_last = 0\<rparr>
     = Inr ([''partial''], \<lparr>buf_e = utf8, buf_bytes = ''partial'', buf_last = 7\<rparr>)
   \<and> next_utf8_lines cv finished \<lparr>buf_e = utf8, buf_bytes = ''partial'', buf_last = 7\<rparr>
     = Inr ([], \<lparr>buf_e = utf8, buf_bytes = ''partial'', buf_last = 7\<rparr>)"
proof -
  have first: "next_utf8_lines cv False (add ''partial'' (new_encoded_buffer e []))
      = Inr ([], \<lparr>buf_e = e, buf_bytes = ''partial'', buf_last = 0\<rparr>)"
    if "e = dont_know \<or> e = utf8" for e
    using that by (elim disjE; hypsubst) code_simp+
  have flush: "next_utf8_lines cv True \<lparr>buf_e = e, buf_bytes = ''partial'', buf_last = 0\<rparr>
      = Inr ([''partial''], \<lparr>buf_e = e, buf_bytes = ''partial'', buf_last = 7\<rparr>)"
    if "e = dont_know \<or> e = utf8" for e
    using that by (elim disjE; hypsubst) code_simp+
  have after: "next_utf8_lines cv fin \<lparr>buf_e = e, buf_bytes = ''partial'', buf_last = 7\<rparr>
      = Inr ([], \<lparr>buf_e = e, buf_bytes = ''partial'', buf_last = 7\<rparr>)"
    if "e = dont_know \<or> e = utf8" and "fin = True \<or> fin = False" for e fin
    using that by (elim disjE; hypsubst) code_simp+
  have fin: "finished = True \<or> finished = False" by simp
  show ?thesis
    using first [of dont_know] first [of utf8] flush [of dont_know] flush [of utf8]
      after [of dont_know finished, OF _ fin] after [of utf8 finished, OF _ fin]
    by simp
qed

text \<open>
  C7. Separator collapsing: each of \<open>"a\r\nb"\<close>, \<open>"a\n\rb"\<close>, \<open>"a\rb"\<close> and
  \<open>"a\nb"\<close>, given to \<open>add\<close> in one call and decoded by \<open>next_utf8_lines(true, f)\<close>,
  with or without a \<open>next_utf8_lines(false, f)\<close> before it, yields the two lines \<open>"a"\<close>
  and \<open>"b"\<close>. Under \<open>acp\<close> and \<open>oem\<close> the two lines reach \<open>f\<close> through
  \<open>bytes_to_utf8\<close>.
\<close>

theorem separator_collapsing:
  "whole cv dont_know (''a'' @ [CHR 0x0D, CHR 0x0A] @ ''b'') = Inr [''a'', ''b'']
   \<and> chunked cv dont_know [''a'' @ [CHR 0x0D, CHR 0x0A] @ ''b''] = Inr [''a'', ''b'']
   \<and> whole cv dont_know (''a'' @ [CHR 0x0A, CHR 0x0D] @ ''b'') = Inr [''a'', ''b'']
   \<and> chunked cv dont_know [''a'' @ [CHR 0x0A, CHR 0x0D] @ ''b''] = Inr [''a'', ''b'']
   \<and> whole cv dont_know (''a'' @ [CHR 0x0D] @ ''b'') = Inr [''a'', ''b'']
   \<and> chunked cv dont_know [''a'' @ [CHR 0x0D] @ ''b''] = Inr [''a'', ''b'']
   \<and> whole cv dont_know (''a'' @ [CHR 0x0A] @ ''b'') = Inr [''a'', ''b'']
   \<and> chunked cv dont_know [''a'' @ [CHR 0x0A] @ ''b''] = Inr [''a'', ''b'']
   \<and> whole cv utf8 (''a'' @ [CHR 0x0D, CHR 0x0A] @ ''b'') = Inr [''a'', ''b'']
   \<and> chunked cv utf8 [''a'' @ [CHR 0x0D, CHR 0x0A] @ ''b''] = Inr [''a'', ''b'']
   \<and> whole cv utf8 (''a'' @ [CHR 0x0A, CHR 0x0D] @ ''b'') = Inr [''a'', ''b'']
   \<and> chunked cv utf8 [''a'' @ [CHR 0x0A, CHR 0x0D] @ ''b''] = Inr [''a'', ''b'']
   \<and> whole cv utf8 (''a'' @ [CHR 0x0D] @ ''b'') = Inr [''a'', ''b'']
   \<and> chunked cv utf8 [''a'' @ [CHR 0x0D] @ ''b''] = Inr [''a'', ''b'']
   \<and> whole cv utf8 (''a'' @ [CHR 0x0A] @ ''b'') = Inr [''a'', ''b'']
   \<and> chunked cv utf8 [''a'' @ [CHR 0x0A] @ ''b''] = Inr [''a'', ''b'']
   \<and> whole cv acp (''a'' @ [CHR 0x0D, CHR 0x0A] @ ''b'') = Inr [bytes_to_utf8 cv acp ''a'', bytes_to_utf8 cv acp ''b'']
   \<and> whole cv acp (''a'' @ [CHR 0x0A, CHR 0x0D] @ ''b'') = Inr [bytes_to_utf8 cv acp ''a'', bytes_to_utf8 cv acp ''b'']
   \<and> whole cv acp (''a'' @ [CHR 0x0D] @ ''b'') = Inr [bytes_to_utf8 cv acp ''a'', bytes_to_utf8 cv acp ''b'']
   \<and> whole cv acp (''a'' @ [CHR 0x0A] @ ''b'') = Inr [bytes_to_utf8 cv acp ''a'', bytes_to_utf8 cv acp ''b'']
   \<and> whole cv oem (''a'' @ [CHR 0x0D, CHR 0x0A] @ ''b'') = Inr [bytes_to_utf8 cv oem ''a'', bytes_to_utf8 cv oem ''b'']
   \<and> whole cv oem (''a'' @ [CHR 0x0A, CHR 0x0D] @ ''b'') = Inr [bytes_to_utf8 cv oem ''a'', bytes_to_utf8 cv oem ''b'']
   \<and> whole cv oem (''a'' @ [CHR 0x0D] @ ''b'') = Inr [bytes_to_utf8 cv oem ''a'', bytes_to_utf8 cv oem ''b'']
   \<and> whole cv oem (''a'' @ [CHR 0x0A] @ ''b'') = Inr [bytes_to_utf8 cv oem ''a'', bytes_to_utf8 cv oem ''b'']"
  by (intro conjI; code_simp)

subsection \<open>Invariants\<close>

text \<open>
  C10. The offset never moves backwards: \<open>add\<close> leaves it alone, a
  \<open>next_utf8_lines\<close> that returns leaves it where it was or further on, and so does
  every sequence of the two.
\<close>

theorem offset_monotone:
  "buf_last (add bytes b) = buf_last b
   \<and> (next_utf8_lines cv finished b = Inr (ls, b') \<longrightarrow> buf_last b \<le> buf_last b')
   \<and> (calls cv cs b = Inr (ls', b'') \<longrightarrow> buf_last b \<le> buf_last b'')"
proof (intro conjI impI)
  show "buf_last (add bytes b) = buf_last b"
    by (simp add: add_def)
  show "buf_last b \<le> buf_last b'" if "next_utf8_lines cv finished b = Inr (ls, b')"
    using next_utf8_lines_props [OF that] by simp
  show "buf_last b \<le> buf_last b''" if "calls cv cs b = Inr (ls', b'')"
    using that by (rule calls_mono)
qed

theorem offset_monotone_witness:
  "next_utf8_lines plain False \<lparr>buf_e = utf8, buf_bytes = ''a'' @ CHR 0x0A # ''b'', buf_last = 0\<rparr>
     = Inr ([''a''], \<lparr>buf_e = utf8, buf_bytes = ''a'' @ CHR 0x0A # ''b'', buf_last = 2\<rparr>)
   \<and> buf_last \<lparr>buf_e = utf8, buf_bytes = ''a'' @ CHR 0x0A # ''b'', buf_last = 0\<rparr>
     \<le> buf_last \<lparr>buf_e = utf8, buf_bytes = ''a'' @ CHR 0x0A # ''b'', buf_last = 2\<rparr>
   \<and> calls plain [Next_utf8_lines False, Add [CHR 0x0D], Next_utf8_lines True]
       \<lparr>buf_e = utf8, buf_bytes = ''a'' @ CHR 0x0A # ''b'', buf_last = 0\<rparr>
     = Inr ([''a'', ''b''],
            \<lparr>buf_e = utf8, buf_bytes = (''a'' @ CHR 0x0A # ''b'') @ [CHR 0x0D], buf_last = 4\<rparr>)
   \<and> buf_last \<lparr>buf_e = utf8, buf_bytes = ''a'' @ CHR 0x0A # ''b'', buf_last = 0\<rparr>
     \<le> buf_last \<lparr>buf_e = utf8, buf_bytes = (''a'' @ CHR 0x0A # ''b'') @ [CHR 0x0D], buf_last = 4\<rparr>"
proof -
  have h1: "next_utf8_lines plain False
       \<lparr>buf_e = utf8, buf_bytes = ''a'' @ CHR 0x0A # ''b'', buf_last = 0\<rparr>
     = Inr ([''a''], \<lparr>buf_e = utf8, buf_bytes = ''a'' @ CHR 0x0A # ''b'', buf_last = 2\<rparr>)"
    by code_simp
  have h2: "calls plain [Next_utf8_lines False, Add [CHR 0x0D], Next_utf8_lines True]
       \<lparr>buf_e = utf8, buf_bytes = ''a'' @ CHR 0x0A # ''b'', buf_last = 0\<rparr>
     = Inr ([''a'', ''b''],
            \<lparr>buf_e = utf8, buf_bytes = (''a'' @ CHR 0x0A # ''b'') @ [CHR 0x0D], buf_last = 4\<rparr>)"
    by code_simp
  show ?thesis
    using h1 h2
      offset_monotone [of "''x''"
        "\<lparr>buf_e = utf8, buf_bytes = ''a'' @ CHR 0x0A # ''b'', buf_last = 0\<rparr>" plain False
        "[''a'']" "\<lparr>buf_e = utf8, buf_bytes = ''a'' @ CHR 0x0A # ''b'', buf_last = 2\<rparr>"
        "[Next_utf8_lines False, Add [CHR 0x0D], Next_utf8_lines True]" "[''a'', ''b'']"
        "\<lparr>buf_e = utf8, buf_bytes = (''a'' @ CHR 0x0A # ''b'') @ [CHR 0x0D], buf_last = 4\<rparr>"]
    by simp
qed

text \<open>
  C9. \<open>f\<close> is never called for an empty line. When \<open>next_line\<close> yields an empty view
  the loop returns at once, with no call of \<open>f\<close>, under every encoding and either flag.
  Every line that \<open>f\<close> does get is the conversion of a view that is not empty: under
  \<open>utf8\<close> and \<open>dont_know\<close>, where \<open>f\<close> gets the bytes of the view, no argument of
  \<open>f\<close> is empty; under the other encodings none is empty as long as \<open>utf16_to_utf8\<close>
  and \<open>bytes_to_utf8\<close> turn no non-empty text into the empty one.
\<close>

theorem emit_never_empty:
  "(next_line (line_CharT (buf_e b)) finished (buf_bytes b) (buf_last b) = Inr (line, off)
      \<and> view_empty line \<longrightarrow>
        next_utf8_lines cv finished b = Inr ([], b\<lparr>buf_last := off\<rparr>))
   \<and> (next_utf8_lines cv finished b = Inr (ls, b') \<longrightarrow>
        (\<forall>l \<in> set ls. \<exists>v. \<not> view_empty v \<and> to_utf8 cv (buf_e b) (buf_bytes b) v = Inr l)
        \<and> (buf_e b = utf8 \<or> buf_e b = dont_know \<longrightarrow> [] \<notin> set ls)
        \<and> ((\<forall>ws. ws \<noteq> [] \<longrightarrow> utf16_to_utf8 cv ws \<noteq> [])
             \<and> (\<forall>e cp. cp \<noteq> [] \<longrightarrow> bytes_to_utf8 cv e cp \<noteq> []) \<longrightarrow> [] \<notin> set ls))"
proof (intro conjI impI ballI)
  show "next_utf8_lines cv finished b = Inr ([], b\<lparr>buf_last := off\<rparr>)"
    if "next_line (line_CharT (buf_e b)) finished (buf_bytes b) (buf_last b) = Inr (line, off)
      \<and> view_empty line"
    using that by (subst next_utf8_lines.simps) simp
next
  fix l
  assume "next_utf8_lines cv finished b = Inr (ls, b')" and "l \<in> set ls"
  then show "\<exists>v. \<not> view_empty v \<and> to_utf8 cv (buf_e b) (buf_bytes b) v = Inr l"
    by (rule next_utf8_lines_lines)
next
  assume run: "next_utf8_lines cv finished b = Inr (ls, b')"
    and e: "buf_e b = utf8 \<or> buf_e b = dont_know"
  show "[] \<notin> set ls"
  proof
    assume "[] \<in> set ls"
    with run obtain v where "\<not> view_empty v" "to_utf8 cv (buf_e b) (buf_bytes b) v = Inr []"
      by (blast dest: next_utf8_lines_lines)
    with e show False by (auto dest: view_chars_nonempty)
  qed
next
  assume run: "next_utf8_lines cv finished b = Inr (ls, b')"
    and cv: "(\<forall>ws. ws \<noteq> [] \<longrightarrow> utf16_to_utf8 cv ws \<noteq> [])
             \<and> (\<forall>e cp. cp \<noteq> [] \<longrightarrow> bytes_to_utf8 cv e cp \<noteq> [])"
  show "[] \<notin> set ls"
  proof
    assume "[] \<in> set ls"
    with run obtain v where v: "\<not> view_empty v" "to_utf8 cv (buf_e b) (buf_bytes b) v = Inr []"
      by (blast dest: next_utf8_lines_lines)
    show False
    proof (cases "buf_e b")
      case utf16
      with v obtain ws where "view_wchars (buf_bytes b) v = Inr ws" "utf16_to_utf8 cv ws = []"
        by (auto split: sum.splits)
      with v(1) cv show False by (auto dest: view_wchars_nonempty)
    next
      case acp
      with v obtain cp where "view_chars (buf_bytes b) v = Inr cp" "bytes_to_utf8 cv acp cp = []"
        by (auto split: sum.splits)
      with v(1) cv show False by (auto dest: view_chars_nonempty)
    next
      case oem
      with v obtain cp where "view_chars (buf_bytes b) v = Inr cp" "bytes_to_utf8 cv oem cp = []"
        by (auto split: sum.splits)
      with v(1) cv show False by (auto dest: view_chars_nonempty)
    next
      case utf8
      with v show False by (auto dest: view_chars_nonempty)
    next
      case dont_know
      with v show False by (auto dest: view_chars_nonempty)
    qed
  qed
qed

theorem emit_never_empty_witness:
  "next_line (line_CharT utf8) True (''a'' @ [CHR 0x0A]) 2 = Inr ((2, 0), 2)
   \<and> view_empty (2, 0)
   \<and> next_utf8_lines plain True \<lparr>buf_e = utf8, buf_bytes = ''a'' @ [CHR 0x0A], buf_last = 2\<rparr>
     = Inr ([], \<lparr>buf_e = utf8, buf_bytes = ''a'' @ [CHR 0x0A], buf_last = 2\<rparr>)
   \<and> next_utf8_lines plain False
       \<lparr>buf_e = utf16, buf_bytes = [CHR ''a'', CHR 0x00, CHR 0x0A, CHR 0x00], buf_last = 0\<rparr>
     = Inr ([''a''],
         \<lparr>buf_e = utf16, buf_bytes = [CHR ''a'', CHR 0x00, CHR 0x0A, CHR 0x00], buf_last = 4\<rparr>)
   \<and> [] \<notin> set [''a'']
   \<and> next_utf8_lines plain True \<lparr>buf_e = utf8, buf_bytes = ''a'' @ CHR 0x0A # ''b'', buf_last = 0\<rparr>
     = Inr ([''a'', ''b''], \<lparr>buf_e = utf8, buf_bytes = ''a'' @ CHR 0x0A # ''b'', buf_last = 3\<rparr>)
   \<and> [] \<notin> set [''a'', ''b'']"
proof -
  have h1: "next_line (line_CharT utf8) True (''a'' @ [CHR 0x0A]) 2 = Inr ((2, 0), 2)"
    by code_simp
  have h2: "view_empty (2, 0)"
    by (simp add: view_empty_def)
  have h3: "next_utf8_lines plain False
       \<lparr>buf_e = utf16, buf_bytes = [CHR ''a'', CHR 0x00, CHR 0x0A, CHR 0x00], buf_last = 0\<rparr>
     = Inr ([''a''],
         \<lparr>buf_e = utf16, buf_bytes = [CHR ''a'', CHR 0x00, CHR 0x0A, CHR 0x00], buf_last = 4\<rparr>)"
    by code_simp
  have h4: "next_utf8_lines plain True
       \<lparr>buf_e = utf8, buf_bytes = ''a'' @ CHR 0x0A # ''b'', buf_last = 0\<rparr>
     = Inr ([''a'', ''b''], \<lparr>buf_e = utf8, buf_bytes = ''a'' @ CHR 0x0A # ''b'', buf_last = 3\<rparr>)"
    by code_simp
  have h5: "(\<forall>ws. ws \<noteq> [] \<longrightarrow> utf16_to_utf8 plain ws \<noteq> [])
      \<and> (\<forall>e cp. cp \<noteq> [] \<longrightarrow> bytes_to_utf8 plain e cp \<noteq> [])"
    by (simp add: plain_def)
  show ?thesis
    using h1 h2 h3 h4 h5
      emit_never_empty [of "\<lparr>buf_e = utf8, buf_bytes = ''a'' @ [CHR 0x0A], buf_last = 2\<rparr>"
        True "(2, 0)" 2 plain "[]"
        "\<lparr>buf_e = utf8, buf_bytes = ''a'' @ [CHR 0x0A], buf_last = 2\<rparr>"]
      emit_never_empty [of
        "\<lparr>buf_e = utf16, buf_bytes = [CHR ''a'', CHR 0x00, CHR 0x0A, CHR 0x00], buf_last = 0\<rparr>"
        False "(0, 1)" 4 plain "[''a'']"
        "\<lparr>buf_e = utf16, buf_bytes = [CHR ''a'', CHR 0x00, CHR 0x0A, CHR 0x00], buf_last = 4\<rparr>"]
      emit_never_empty [of
        "\<lparr>buf_e = utf8, buf_bytes = ''a'' @ CHR 0x0A # ''b'', buf_last = 0\<rparr>"
        True "(0, 1)" 2 plain "[''a'', ''b'']"
        "\<lparr>buf_e = utf8, buf_bytes = ''a'' @ CHR 0x0A # ''b'', buf_last = 3\<rparr>"]
    by simp
qed

subsection \<open>Where the code leaves the claims\<close>

text \<open>
  C2. A stream of separators only is to give no line. \<open>next_utf8_lines(false, f)\<close> gives
  none; \<open>next_utf8_lines(true, f)\<close> then calls \<open>f\<close> with the separators themselves:
  the scan has moved \<open>start\<close> behind them, and the final line is taken from
  \<open>byte_offset\<close>, in front of them.
\<close>

theorem separators_only_are_flushed:
  "next_utf8_lines cv False (add [CHR 0x0A] (new_encoded_buffer utf8 []))
     = Inr ([], \<lparr>buf_e = utf8, buf_bytes = [CHR 0x0A], buf_last = 0\<rparr>)
   \<and> next_utf8_lines cv True \<lparr>buf_e = utf8, buf_bytes = [CHR 0x0A], buf_last = 0\<rparr>
     = Inr ([[CHR 0x0A]], \<lparr>buf_e = utf8, buf_bytes = [CHR 0x0A], buf_last = 1\<rparr>)
   \<and> whole cv utf8 [CHR 0x0D, CHR 0x0A] = Inr [[CHR 0x0D, CHR 0x0A]]"
  by (intro conjI; code_simp)

text \<open>
  C1. Chunking invariance fails where a chunk ends inside a run of separators:
  \<open>"a\r"\<close> then \<open>"\nb"\<close> gives the lines \<open>"a"\<close> and \<open>"\nb"\<close>, the same bytes in one
  call give \<open>"a"\<close> and \<open>"b"\<close>. The offset stands behind \<open>"\r"\<close> when \<open>"\n"\<close>
  arrives, and the final line is taken from the offset.
\<close>

theorem chunking_changes_lines:
  "chunked cv utf8 [''a'' @ [CHR 0x0D], CHR 0x0A # ''b''] = Inr [''a'', CHR 0x0A # ''b'']
   \<and> whole cv utf8 (concat [''a'' @ [CHR 0x0D], CHR 0x0A # ''b'']) = Inr [''a'', ''b'']"
  by (intro conjI; code_simp)

text \<open>
  C3. An odd number of bytes under \<open>utf16\<close>, \<open>'a'\<close>, \<open>0\<close>, \<open>'b'\<close>, and
  \<open>next_utf8_lines(true, f)\<close>: the final line is a view of two units at offset 0, four
  bytes of a buffer of three, and the offset becomes 3, behind the end (2) of the whole
  units, so that the next scan starts with \<open>p\<close> behind \<open>end\<close> and reads there. The call
  reads outside the buffer.
\<close>

theorem utf16_odd_flush_reads_outside:
  "next_line wchar_t True [CHR ''a'', CHR 0x00, CHR ''b''] 0 = Inr ((0, 2), 3)
   \<and> view_wchars [CHR ''a'', CHR 0x00, CHR ''b''] (0, 2) = Inl out_of_bounds
   \<and> next_line wchar_t True [CHR ''a'', CHR 0x00, CHR ''b''] 3 = Inl out_of_bounds
   \<and> next_line wchar_t False [CHR ''a'', CHR 0x00, CHR ''b''] 3 = Inl out_of_bounds
   \<and> next_utf8_lines cv True (add [CHR ''a'', CHR 0x00, CHR ''b''] (new_encoded_buffer utf16 []))
     = Inl out_of_bounds"
  by (intro conjI; code_simp)

text \<open>
  C6. Under \<open>utf16\<close>, with the five bytes \<open>'a'\<close>, \<open>0\<close>, \<open>'\n'\<close>, \<open>0\<close>, \<open>'b'\<close>:
  \<open>next_utf8_lines(true, f)\<close> gives the line \<open>a\<close> and returns with the offset at 5; a
  call after it, with either flag, is not a no-op: its scan starts at 5 with \<open>end\<close>
  at 4 and reads outside the buffer.
\<close>

theorem utf16_odd_call_after_flush:
  "next_utf8_lines cv True
       (add [CHR ''a'', CHR 0x00, CHR 0x0A, CHR 0x00, CHR ''b''] (new_encoded_buffer utf16 []))
     = Inr ([utf16_to_utf8 cv [0x61]],
         \<lparr>buf_e = utf16, buf_bytes = [CHR ''a'', CHR 0x00, CHR 0x0A, CHR 0x00, CHR ''b''],
            buf_last = 5\<rparr>)
   \<and> next_utf8_lines cv True
       \<lparr>buf_e = utf16, buf_bytes = [CHR ''a'', CHR 0x00, CHR 0x0A, CHR 0x00, CHR ''b''],
          buf_last = 5\<rparr> = Inl out_of_bounds
   \<and> next_utf8_lines cv False
       \<lparr>buf_e = utf16, buf_bytes = [CHR ''a'', CHR 0x00, CHR 0x0A, CHR 0x00, CHR ''b''],
          buf_last = 5\<rparr> = Inl out_of_bounds"
  by (intro conjI; code_simp)

text \<open>
  C8. The offset is never to exceed the length of the accumulated bytes. Under \<open>utf16\<close>,
  with the five bytes \<open>'a'\<close>, \<open>0\<close>, \<open>'\n'\<close>, \<open>0\<close>, \<open>'b'\<close>:
  \<open>next_utf8_lines(true, f)\<close> returns with the offset at 5. The scan of the next call
  starts at 5 with \<open>end\<close> at 4 and reads outside the buffer; whatever lies behind the
  buffer, it never returns with an offset inside the buffer: it leaves the loop by the
  \<open>break\<close> only and stores an offset behind the buffer's length. With the bytes
  \<open>'x'\<close>, \<open>0\<close>, \<open>'\n'\<close>, \<open>0\<close>, \<open>'y'\<close>, \<open>0\<close> behind the buffer, the offset stored
  is 9, of a buffer of 5.
\<close>

theorem offset_behind_length_after_utf16_flush:
  "next_utf8_lines cv True
       (add [CHR ''a'', CHR 0x00, CHR 0x0A, CHR 0x00, CHR ''b''] (new_encoded_buffer utf16 []))
     = Inr ([utf16_to_utf8 cv [0x61]],
         \<lparr>buf_e = utf16, buf_bytes = [CHR ''a'', CHR 0x00, CHR 0x0A, CHR 0x00, CHR ''b''],
            buf_last = 5\<rparr>)
   \<and> next_line wchar_t finished [CHR ''a'', CHR 0x00, CHR 0x0A, CHR 0x00, CHR ''b''] 5
     = Inl out_of_bounds
   \<and> \<not> (\<exists>line off.
          next_line_in_memory wchar_t finished
            [CHR ''a'', CHR 0x00, CHR 0x0A, CHR 0x00, CHR ''b''] behind 5 = Inr (line, off)
          \<and> off \<le> length [CHR ''a'', CHR 0x00, CHR 0x0A, CHR 0x00, CHR ''b''])
   \<and> next_line_in_memory wchar_t False [CHR ''a'', CHR 0x00, CHR 0x0A, CHR 0x00, CHR ''b'']
       [CHR ''x'', CHR 0x00, CHR 0x0A, CHR 0x00, CHR ''y'', CHR 0x00] 5 = Inr ((5, 1), 9)"
proof (intro conjI)
  show "next_utf8_lines cv True
       (add [CHR ''a'', CHR 0x00, CHR 0x0A, CHR 0x00, CHR ''b''] (new_encoded_buffer utf16 []))
     = Inr ([utf16_to_utf8 cv [0x61]],
         \<lparr>buf_e = utf16, buf_bytes = [CHR ''a'', CHR 0x00, CHR 0x0A, CHR 0x00, CHR ''b''],
            buf_last = 5\<rparr>)"
    by code_simp
  have "next_line wchar_t True [CHR ''a'', CHR 0x00, CHR 0x0A, CHR 0x00, CHR ''b''] 5
      = Inl out_of_bounds"
    and "next_line wchar_t False [CHR ''a'', CHR 0x00, CHR 0x0A, CHR 0x00, CHR ''b''] 5
      = Inl out_of_bounds"
    by code_simp+
  then show "next_line wchar_t finished [CHR ''a'', CHR 0x00, CHR 0x0A, CHR 0x00, CHR ''b''] 5
      = Inl out_of_bounds"
    by (cases finished) simp_all
  show "\<not> (\<exists>line off.
          next_line_in_memory wchar_t finished
            [CHR ''a'', CHR 0x00, CHR 0x0A, CHR 0x00, CHR ''b''] behind 5 = Inr (line, off)
          \<and> off \<le> length [CHR ''a'', CHR 0x00, CHR 0x0A, CHR 0x00, CHR ''b''])"
  proof
    assume "\<exists>line off.
          next_line_in_memory wchar_t finished
            [CHR ''a'', CHR 0x00, CHR 0x0A, CHR 0x00, CHR ''b''] behind 5 = Inr (line, off)
          \<and> off \<le> length [CHR ''a'', CHR 0x00, CHR 0x0A, CHR 0x00, CHR ''b'']"
    then obtain line off where
      run: "next_line_in_memory wchar_t finished
            [CHR ''a'', CHR 0x00, CHR 0x0A, CHR 0x00, CHR ''b''] behind 5 = Inr (line, off)"
      and le: "off \<le> length [CHR ''a'', CHR 0x00, CHR 0x0A, CHR 0x00, CHR ''b'']" by blast
    from scan_from_behind_end [OF run] have "5 + sizeof wchar_t \<le> off" by simp
    with le show False by simp
  qed
  show "next_line_in_memory wchar_t False [CHR ''a'', CHR 0x00, CHR 0x0A, CHR 0x00, CHR ''b'']
       [CHR ''x'', CHR 0x00, CHR 0x0A, CHR 0x00, CHR ''y'', CHR 0x00] 5 = Inr ((5, 1), 9)"
    by code_simp
qed

text \<open>
  C4. \<open>pipe\<close> of three descriptors: the value of the inner call \<open>pipe(r, ps...)\<close> is
  dropped, so whatever \<open>pipe_into\<close> does, the result is \<open>p1\<close> piped into \<open>p2\<close> and
  every later descriptor is missing from it.
\<close>

theorem pipe_drops_later_descriptors:
  "pipe f p1 (p2 # ps) = f p1 p2
   \<and> chain (pipe pipe_into (raw ''a'') [raw ''b'', raw ''c'']) = [''a'', ''b'']
   \<and> chain (pipe_into (pipe_into (raw ''a'') (raw ''b'')) (raw ''c'')) = [''a'', ''b'', ''c'']"
  by (simp add: pipe_into_def raw_def)

end
